theory Spec2Isabelle
  imports Main
begin

section \<open>Object permission forms of django-guardian (guardian/forms.py)\<close>

text \<open>
  The four concrete forms of \<^verbatim>\<open>guardian/forms.py\<close> store the object permissions
  selected for one principal (a user or a group) on one object: every
  permission of the object's model that was not selected is removed, every
  selected one is assigned. The functions they call, \<^verbatim>\<open>assign\<close>,
  \<^verbatim>\<open>remove_perm\<close>, \<^verbatim>\<open>get_perms\<close> and \<^verbatim>\<open>get_perms_for_model\<close>, are imported from
  \<^verbatim>\<open>guardian.shortcuts\<close>; the forms are modelled over any implementation of them.
\<close>

subsection \<open>Data\<close>

text \<open>A principal is a user or a group, identified by its primary key.\<close>

datatype principal = User nat | Group nat

fun principal_id :: "principal \<Rightarrow> nat" where
  "principal_id (User i) = i"
| "principal_id (Group i) = i"

text \<open>A \<^verbatim>\<open>Permission\<close> instance, as far as the forms read it.\<close>

record permission =
  codename :: string
  name :: string

text \<open>
  What a call can raise. \<open>StoreOperationError\<close> stands for any exception raised
  inside \<^verbatim>\<open>assign\<close> or \<^verbatim>\<open>remove_perm\<close>; \<open>NotFoundError\<close> for a selected principal
  that is not among the candidates.
\<close>

datatype error = StoreOperationError | NotFoundError

text \<open>The two mutating calls the forms make, with their arguments.\<close>

datatype 'o call = RemovePerm string principal 'o | Assign string principal 'o

text \<open>
  The functions imported from \<^verbatim>\<open>guardian.shortcuts\<close>, over a store state \<open>'s\<close>
  and objects \<open>'o\<close>. A mutating call returns the state it leaves behind and the
  exception it raised, if any: a Python call that raises may have written
  before it did.
\<close>

record ('s, 'o) shortcuts =
  assign :: "string \<Rightarrow> principal \<Rightarrow> 'o \<Rightarrow> 's \<Rightarrow> 's \<times> error option"
  remove_perm :: "string \<Rightarrow> principal \<Rightarrow> 'o \<Rightarrow> 's \<Rightarrow> 's \<times> error option"
  get_perms :: "principal \<Rightarrow> 'o \<Rightarrow> 's \<Rightarrow> string list"
  get_perms_for_model :: "'o \<Rightarrow> permission list"

text \<open>
  The forms, as the fields \<^verbatim>\<open>save_obj_perms\<close> reads: \<open>obj\<close> is \<^verbatim>\<open>self.obj\<close>,
  \<open>permissions\<close> is \<^verbatim>\<open>self.cleaned_data['permissions']\<close> (a list, in the order
  submitted), \<open>user\<close> and \<open>group\<close> are \<^verbatim>\<open>self.user\<close> and \<^verbatim>\<open>self.group\<close>, and
  \<open>cleaned_user\<close> and \<open>cleaned_group\<close> are \<^verbatim>\<open>self.cleaned_data['user']\<close> and
  \<^verbatim>\<open>self.cleaned_data['group']\<close>. The docstrings require the form to be
  validated before \<^verbatim>\<open>save_obj_perms\<close> is called, so the cleaned data is there.
\<close>

record 'o BaseObjectPermissionsForm =
  obj :: 'o
  permissions :: "string list"

record 'o UserObjectPermissionsForm = "'o BaseObjectPermissionsForm" +
  user :: principal

record 'o AddUserObjectPermissionsForm = "'o BaseObjectPermissionsForm" +
  cleaned_user :: principal

record 'o GroupObjectPermissionsForm = "'o BaseObjectPermissionsForm" +
  group :: principal

record 'o AddGroupObjectPermissionsForm = "'o BaseObjectPermissionsForm" +
  cleaned_group :: principal

subsection \<open>Python constructs\<close>

text \<open>
  \<^verbatim>\<open>for x in xs: body(x)\<close> over a store: the body runs for each element in turn;
  the first exception ends the loop and is passed on, with the store as the
  raising call left it.
\<close>

fun for_each :: "('a \<Rightarrow> 's \<Rightarrow> 's \<times> error option) \<Rightarrow> 'a list \<Rightarrow> 's \<Rightarrow> 's \<times> error option" where
  "for_each body [] s = (s, None)"
| "for_each body (x # xs) s =
     (case body x s of
        (s', None) \<Rightarrow> for_each body xs s'
      | (s', Some e) \<Rightarrow> (s', Some e))"

text \<open>
  \<^verbatim>\<open>set(xs) - set(ys)\<close>: the elements of \<open>xs\<close> that are not in \<open>ys\<close>, each once.
  A Python set has no order of its own: the order in which a \<^verbatim>\<open>for\<close> loop visits
  it is fixed by the hashes of its elements. The forms therefore take the
  order of iteration as a parameter \<open>iter\<close>, a function that rearranges the
  elements of a set; \<open>set_iteration\<close> says that it visits each element once.
\<close>

definition set_difference :: "'a list \<Rightarrow> 'a list \<Rightarrow> 'a list" where
  "set_difference xs ys = filter (\<lambda>x. x \<notin> set ys) (remdups xs)"

definition set_iteration :: "('a list \<Rightarrow> 'a list) \<Rightarrow> bool" where
  "set_iteration iter \<longleftrightarrow> (\<forall>xs. distinct xs \<longrightarrow> distinct (iter xs) \<and> set (iter xs) = set xs)"

subsection \<open>BaseObjectPermissionsForm\<close>

definition get_obj_perms_field_choices :: "('s, 'o) shortcuts \<Rightarrow> 'o \<Rightarrow> (string \<times> string) list" where
  "get_obj_perms_field_choices sc ob =
     map (\<lambda>p. (codename p, name p)) (get_perms_for_model sc ob)"

subsection \<open>The four concrete forms\<close>

definition User_get_obj_perms_field_initial ::
  "('s, 'o) shortcuts \<Rightarrow> 'o UserObjectPermissionsForm \<Rightarrow> 's \<Rightarrow> string list" where
  "User_get_obj_perms_field_initial sc form s = get_perms sc (user form) (obj form) s"

definition User_save_obj_perms ::
  "('s, 'o) shortcuts \<Rightarrow> (string list \<Rightarrow> string list) \<Rightarrow> 'o UserObjectPermissionsForm
     \<Rightarrow> 's \<Rightarrow> 's \<times> error option" where
  "User_save_obj_perms sc iter form s =
     (let perms = permissions form;
          model_perms = map fst (get_obj_perms_field_choices sc (obj form));
          to_remove = set_difference model_perms perms
      in case for_each (\<lambda>perm. remove_perm sc perm (user form) (obj form)) (iter to_remove) s of
           (s1, Some e) \<Rightarrow> (s1, Some e)
         | (s1, None) \<Rightarrow> for_each (\<lambda>perm. assign sc perm (user form) (obj form)) perms s1)"

definition AddUser_save_obj_perms ::
  "('s, 'o) shortcuts \<Rightarrow> (string list \<Rightarrow> string list) \<Rightarrow> 'o AddUserObjectPermissionsForm
     \<Rightarrow> 's \<Rightarrow> 's \<times> error option" where
  "AddUser_save_obj_perms sc iter form s =
     (let user = cleaned_user form;
          perms = permissions form;
          model_perms = map fst (get_obj_perms_field_choices sc (obj form));
          to_remove = set_difference model_perms perms
      in case for_each (\<lambda>perm. remove_perm sc perm user (obj form)) (iter to_remove) s of
           (s1, Some e) \<Rightarrow> (s1, Some e)
         | (s1, None) \<Rightarrow> for_each (\<lambda>perm. assign sc perm user (obj form)) perms s1)"

definition Group_get_obj_perms_field_initial ::
  "('s, 'o) shortcuts \<Rightarrow> 'o GroupObjectPermissionsForm \<Rightarrow> 's \<Rightarrow> string list" where
  "Group_get_obj_perms_field_initial sc form s = get_perms sc (group form) (obj form) s"

definition Group_save_obj_perms ::
  "('s, 'o) shortcuts \<Rightarrow> (string list \<Rightarrow> string list) \<Rightarrow> 'o GroupObjectPermissionsForm
     \<Rightarrow> 's \<Rightarrow> 's \<times> error option" where
  "Group_save_obj_perms sc iter form s =
     (let perms = permissions form;
          model_perms = map fst (get_obj_perms_field_choices sc (obj form));
          to_remove = set_difference model_perms perms
      in case for_each (\<lambda>perm. remove_perm sc perm (group form) (obj form)) (iter to_remove) s of
           (s1, Some e) \<Rightarrow> (s1, Some e)
         | (s1, None) \<Rightarrow> for_each (\<lambda>perm. assign sc perm (group form) (obj form)) perms s1)"

definition AddGroup_save_obj_perms ::
  "('s, 'o) shortcuts \<Rightarrow> (string list \<Rightarrow> string list) \<Rightarrow> 'o AddGroupObjectPermissionsForm
     \<Rightarrow> 's \<Rightarrow> 's \<times> error option" where
  "AddGroup_save_obj_perms sc iter form s =
     (let group = cleaned_group form;
          perms = permissions form;
          model_perms = map fst (get_obj_perms_field_choices sc (obj form));
          to_remove = set_difference model_perms perms
      in case for_each (\<lambda>perm. remove_perm sc perm group (obj form)) (iter to_remove) s of
           (s1, Some e) \<Rightarrow> (s1, Some e)
         | (s1, None) \<Rightarrow> for_each (\<lambda>perm. assign sc perm group (obj form)) perms s1)"

subsection \<open>The calls a run makes\<close>

text \<open>One call, made on the store.\<close>

definition apply_call :: "('s, 'o) shortcuts \<Rightarrow> 'o call \<Rightarrow> 's \<Rightarrow> 's \<times> error option" where
  "apply_call sc c s =
     (case c of
        RemovePerm perm p ob \<Rightarrow> remove_perm sc perm p ob s
      | Assign perm p ob \<Rightarrow> assign sc perm p ob s)"

text \<open>
  The forms are written over any implementation of the shortcuts, so the calls
  a run makes are observed by running it on \<open>recording sc\<close>: the store \<open>sc\<close>
  with a log beside it, to which every call to \<^verbatim>\<open>assign\<close> and \<^verbatim>\<open>remove_perm\<close> is
  appended as it is made (also one that raises), before \<open>sc\<close> carries it out.
\<close>

definition recording :: "('s, 'o) shortcuts \<Rightarrow> ('s \<times> 'o call list, 'o) shortcuts" where
  "recording sc =
     \<lparr> assign = (\<lambda>perm p ob (s, log).
         case assign sc perm p ob s of (s', r) \<Rightarrow> ((s', log @ [Assign perm p ob]), r)),
       remove_perm = (\<lambda>perm p ob (s, log).
         case remove_perm sc perm p ob s of (s', r) \<Rightarrow> ((s', log @ [RemovePerm perm p ob]), r)),
       get_perms = (\<lambda>p ob (s, log). get_perms sc p ob s),
       get_perms_for_model = get_perms_for_model sc \<rparr>"

text \<open>Reading a call.\<close>

fun call_codename :: "'o call \<Rightarrow> string" where
  "call_codename (RemovePerm perm p ob) = perm"
| "call_codename (Assign perm p ob) = perm"

fun call_principal :: "'o call \<Rightarrow> principal" where
  "call_principal (RemovePerm perm p ob) = p"
| "call_principal (Assign perm p ob) = p"

fun is_remove :: "'o call \<Rightarrow> bool" where
  "is_remove (RemovePerm perm p ob) = True"
| "is_remove (Assign perm p ob) = False"

text \<open>A log in which no removal comes after an assignment.\<close>

fun removes_first :: "'o call list \<Rightarrow> bool" where
  "removes_first [] = True"
| "removes_first (c # cs) = ((is_remove c \<or> (\<forall>d \<in> set cs. \<not> is_remove d)) \<and> removes_first cs)"

subsection \<open>The reconciliation of the specification\<close>

text \<open>
  The algorithm as the specification words it (section 4.3), to be compared
  with the forms above: with \<open>allCodes\<close> the codenames of the catalog,
  \<open>toRemove = allCodes - desired\<close> and \<open>toAssign = desired\<close>, call \<^verbatim>\<open>remove\<close> for
  each codename of \<open>toRemove\<close>, then \<^verbatim>\<open>assign\<close> for each codename of \<open>toAssign\<close>,
  and stop at the first call that fails.
\<close>

definition reconcile_calls ::
  "(string list \<Rightarrow> string list) \<Rightarrow> principal \<Rightarrow> 'o \<Rightarrow> string list \<Rightarrow> string list \<Rightarrow> 'o call list" where
  "reconcile_calls iter p ob allCodes desired =
     (let toRemove = set_difference allCodes desired;
          toAssign = desired
      in map (\<lambda>c. RemovePerm c p ob) (iter toRemove) @ map (\<lambda>c. Assign c p ob) toAssign)"

definition reconcile ::
  "('s, 'o) shortcuts \<Rightarrow> (string list \<Rightarrow> string list) \<Rightarrow> principal \<Rightarrow> 'o \<Rightarrow> string list
     \<Rightarrow> string list \<Rightarrow> 's \<Rightarrow> 's \<times> error option" where
  "reconcile sc iter p ob allCodes desired s =
     for_each (apply_call sc) (reconcile_calls iter p ob allCodes desired) s"

subsection \<open>The grant store\<close>

text \<open>The grants a principal holds on an object: \<^verbatim>\<open>currentGrants\<close> of the specification.\<close>

definition currentGrants :: "('s, 'o) shortcuts \<Rightarrow> principal \<Rightarrow> 'o \<Rightarrow> 's \<Rightarrow> string set" where
  "currentGrants sc p ob s = set (get_perms sc p ob s)"

text \<open>
  Modelled from the spec: the contract of \<^verbatim>\<open>guardian.shortcuts.assign\<close>,
  \<^verbatim>\<open>remove_perm\<close> and \<^verbatim>\<open>get_perms\<close>, which are not in the source given
  (section 4.2). A grant exists or does not. A call that returns has added
  (\<^verbatim>\<open>assign\<close>) or deleted (\<^verbatim>\<open>remove_perm\<close>) the one grant it names, so that
  assigning a grant already held and removing an absent one change nothing; a
  call that raises has changed no grant (the calls are atomic); the grants of
  every other principal and object stay as they are.
\<close>

definition idempotent_store :: "('s, 'o) shortcuts \<Rightarrow> bool" where
  "idempotent_store sc \<longleftrightarrow>
     (\<forall>perm p ob s p' ob'.
        currentGrants sc p' ob' (fst (assign sc perm p ob s)) =
          (if snd (assign sc perm p ob s) = None \<and> p' = p \<and> ob' = ob
           then insert perm (currentGrants sc p' ob' s)
           else currentGrants sc p' ob' s) \<and>
        currentGrants sc p' ob' (fst (remove_perm sc perm p ob s)) =
          (if snd (remove_perm sc perm p ob s) = None \<and> p' = p \<and> ob' = ob
           then currentGrants sc p' ob' s - {perm}
           else currentGrants sc p' ob' s))"

text \<open>
  Modelled from the spec: a grant store that meets the contract of section 4.2,
  standing for \<^verbatim>\<open>guardian.shortcuts\<close>, which is not in the source given. The
  state is the list of grants (principal, object, codename), each at most once.
  The calls in \<open>faulty\<close> raise and write nothing; every other call returns.
  \<open>catalog\<close> gives the permissions of an object's model.
\<close>

definition list_store ::
  "('o call \<Rightarrow> bool) \<Rightarrow> ('o \<Rightarrow> permission list) \<Rightarrow> ((principal \<times> 'o \<times> string) list, 'o) shortcuts" where
  "list_store faulty catalog =
     \<lparr> assign = (\<lambda>perm p ob s.
         if faulty (Assign perm p ob) then (s, Some StoreOperationError)
         else (if (p, ob, perm) \<in> set s then s else s @ [(p, ob, perm)], None)),
       remove_perm = (\<lambda>perm p ob s.
         if faulty (RemovePerm perm p ob) then (s, Some StoreOperationError)
         else (removeAll (p, ob, perm) s, None)),
       get_perms = (\<lambda>p ob s. map (\<lambda>g. snd (snd g)) (filter (\<lambda>g. fst g = p \<and> fst (snd g) = ob) s)),
       get_perms_for_model = catalog \<rparr>"

subsection \<open>Resolving the principal of the "add" forms\<close>

text \<open>
  Modelled from the spec: \<^verbatim>\<open>resolvePrincipal\<close> of section 4.4. The "add" forms
  declare the field (\<^verbatim>\<open>get_user_field\<close>, \<^verbatim>\<open>get_group_field\<close>: a required
  \<^verbatim>\<open>ModelChoiceField\<close> over a queryset of candidates); the lookup of the
  submitted key among the candidates is done by \<^verbatim>\<open>django.forms\<close>, which is not
  in the source given. It fails with \<open>NotFoundError\<close> when no candidate has the
  selected id and returns the candidate that has it otherwise.
\<close>

definition resolvePrincipal :: "principal list \<Rightarrow> nat \<Rightarrow> error + principal" where
  "resolvePrincipal candidateSet selectedId =
     (case filter (\<lambda>p. principal_id p = selectedId) candidateSet of
        [] \<Rightarrow> Inl NotFoundError
      | p # _ \<Rightarrow> Inr p)"

text \<open>
  Modelled from the spec: on success the resolver hands the principal to the
  reconciliation at once (section 4.4); here, to \<^verbatim>\<open>save_obj_perms\<close> of the
  "add" form for users, as its \<^verbatim>\<open>cleaned_data['user']\<close>.
\<close>

definition AddUser_submit ::
  "('s, 'o) shortcuts \<Rightarrow> (string list \<Rightarrow> string list) \<Rightarrow> principal list \<Rightarrow> nat \<Rightarrow> 'o
     \<Rightarrow> string list \<Rightarrow> 's \<Rightarrow> 's \<times> error option" where
  "AddUser_submit sc iter candidateSet selectedId ob perms s =
     (case resolvePrincipal candidateSet selectedId of
        Inl e \<Rightarrow> (s, Some e)
      | Inr p \<Rightarrow>
          AddUser_save_obj_perms sc iter \<lparr>obj = ob, permissions = perms, cleaned_user = p\<rparr> s)"

subsection \<open>An example\<close>

text \<open>
  The example of the specification (section 8): posts have the permissions
  \<^verbatim>\<open>view_post\<close>, \<^verbatim>\<open>change_post\<close> and \<^verbatim>\<open>delete_post\<close>. With \<open>never\<close> as its faulty
  calls, a store raises in no call.
\<close>

definition post_permissions :: "nat \<Rightarrow> permission list" where
  "post_permissions ob =
     [\<lparr>codename = ''view_post'', name = ''Can view post''\<rparr>,
      \<lparr>codename = ''change_post'', name = ''Can change post''\<rparr>,
      \<lparr>codename = ''delete_post'', name = ''Can delete post''\<rparr>]"

definition never :: "nat call \<Rightarrow> bool" where
  "never c = False"

section \<open>Properties\<close>

subsection \<open>Loops and the calls they make\<close>

lemma for_each_append:
  "for_each f (xs @ ys) s =
     (case for_each f xs s of (s1, None) \<Rightarrow> for_each f ys s1 | (s1, Some e) \<Rightarrow> (s1, Some e))"
  by (induction xs arbitrary: s) (auto split: prod.splits option.splits)

lemma for_each_map: "for_each f (map g xs) s = for_each (\<lambda>x. f (g x)) xs s"
  by (induction xs arbitrary: s) (auto split: prod.splits option.splits)

lemma apply_call_RemovePerm: "apply_call sc (RemovePerm perm p ob) = remove_perm sc perm p ob"
  by (rule ext) (simp add: apply_call_def)

lemma apply_call_Assign: "apply_call sc (Assign perm p ob) = assign sc perm p ob"
  by (rule ext) (simp add: apply_call_def)

lemma reconcile_unfold:
  "reconcile sc iter p ob allCodes desired s =
     (case for_each (\<lambda>perm. remove_perm sc perm p ob) (iter (set_difference allCodes desired)) s of
        (s1, Some e) \<Rightarrow> (s1, Some e)
      | (s1, None) \<Rightarrow> for_each (\<lambda>perm. assign sc perm p ob) desired s1)"
  by (simp add: reconcile_def reconcile_calls_def for_each_append for_each_map
      apply_call_RemovePerm apply_call_Assign split: prod.splits option.splits)

lemma User_save_obj_perms_reconcile:
  "User_save_obj_perms sc iter form s =
     reconcile sc iter (user form) (obj form)
       (map fst (get_obj_perms_field_choices sc (obj form))) (permissions form) s"
  by (simp add: User_save_obj_perms_def reconcile_unfold Let_def)

lemma AddUser_save_obj_perms_reconcile:
  "AddUser_save_obj_perms sc iter form s =
     reconcile sc iter (cleaned_user form) (obj form)
       (map fst (get_obj_perms_field_choices sc (obj form))) (permissions form) s"
  by (simp add: AddUser_save_obj_perms_def reconcile_unfold Let_def)

lemma Group_save_obj_perms_reconcile:
  "Group_save_obj_perms sc iter form s =
     reconcile sc iter (group form) (obj form)
       (map fst (get_obj_perms_field_choices sc (obj form))) (permissions form) s"
  by (simp add: Group_save_obj_perms_def reconcile_unfold Let_def)

lemma AddGroup_save_obj_perms_reconcile:
  "AddGroup_save_obj_perms sc iter form s =
     reconcile sc iter (cleaned_group form) (obj form)
       (map fst (get_obj_perms_field_choices sc (obj form))) (permissions form) s"
  by (simp add: AddGroup_save_obj_perms_def reconcile_unfold Let_def)

lemma choices_recording [simp]:
  "get_obj_perms_field_choices (recording sc) ob = get_obj_perms_field_choices sc ob"
  by (simp add: get_obj_perms_field_choices_def recording_def)

lemma model_perms_codenames:
  "map fst (get_obj_perms_field_choices sc ob) = map codename (get_perms_for_model sc ob)"
  by (simp add: get_obj_perms_field_choices_def comp_def)

lemma apply_call_recording:
  "apply_call (recording sc) c (s, log) =
     (case apply_call sc c s of (s', r) \<Rightarrow> ((s', log @ [c]), r))"
  by (cases c) (simp_all add: apply_call_def recording_def)

lemma for_each_recording_ok:
  "for_each (apply_call sc) cs s = (s', None) \<Longrightarrow>
   for_each (apply_call (recording sc)) cs (s, log) = ((s', log @ cs), None)"
proof (induction cs arbitrary: s log)
  case Nil
  then show ?case by simp
next
  case (Cons c cs)
  then show ?case
    by (auto simp: apply_call_recording split: prod.splits option.splits)
qed

lemma for_each_recording_fail:
  "k < length cs \<Longrightarrow> for_each (apply_call sc) (take k cs) s = (sk, None) \<Longrightarrow>
   apply_call sc (cs ! k) sk = (sf, Some e) \<Longrightarrow>
   for_each (apply_call (recording sc)) cs (s, log) = ((sf, log @ take (Suc k) cs), Some e)
   \<and> for_each (apply_call sc) cs s = (sf, Some e)"
proof (induction cs arbitrary: s log k)
  case Nil
  then show ?case by simp
next
  case (Cons c cs)
  show ?case
  proof (cases k)
    case 0
    with Cons.prems show ?thesis by (simp add: apply_call_recording)
  next
    case (Suc j)
    with Cons.prems obtain s1 where c: "apply_call sc c s = (s1, None)"
      and rest: "for_each (apply_call sc) (take j cs) s1 = (sk, None)"
      by (auto split: prod.splits option.splits)
    from Suc Cons.prems have j: "j < length cs" and f: "apply_call sc (cs ! j) sk = (sf, Some e)"
      by simp_all
    from Cons.IH [OF j rest f, of "log @ [c]"] c Suc show ?thesis
      by (simp add: apply_call_recording)
  qed
qed

lemma for_each_recording_prefix:
  "for_each (apply_call (recording sc)) cs (s, log) = ((s', tr), r) \<Longrightarrow>
   for_each (apply_call sc) cs s = (s', r) \<and>
   (\<exists>k \<le> length cs. tr = log @ take k cs \<and> (r = None \<longrightarrow> k = length cs))"
proof (induction cs arbitrary: s log)
  case Nil
  then show ?case by simp
next
  case (Cons c cs)
  obtain s1 r1 where c: "apply_call sc c s = (s1, r1)" by (cases "apply_call sc c s")
  show ?case
  proof (cases r1)
    case None
    with c Cons.prems have "for_each (apply_call (recording sc)) cs (s1, log @ [c]) = ((s', tr), r)"
      by (simp add: apply_call_recording)
    from Cons.IH [OF this] obtain k where "for_each (apply_call sc) cs s1 = (s', r)"
      "k \<le> length cs" "tr = (log @ [c]) @ take k cs" "r = None \<longrightarrow> k = length cs" by blast
    with c None show ?thesis
      by (intro conjI exI [of _ "Suc k"]) simp_all
  next
    case (Some e)
    with c Cons.prems have "s' = s1" "tr = log @ [c]" "r = Some e"
      by (simp_all add: apply_call_recording)
    with c Some show ?thesis
      by (intro conjI exI [of _ "Suc 0"]) simp_all
  qed
qed

lemma set_set_difference [simp]: "set (set_difference xs ys) = set xs - set ys"
  by (auto simp: set_difference_def)

lemma distinct_set_difference [simp]: "distinct (set_difference xs ys)"
  by (simp add: set_difference_def)

lemma set_iterationD:
  "set_iteration iter \<Longrightarrow> distinct xs \<Longrightarrow> distinct (iter xs) \<and> set (iter xs) = set xs"
  by (simp add: set_iteration_def)

lemma set_iter_set_difference:
  "set_iteration iter \<Longrightarrow> set (iter (set_difference xs ys)) = set xs - set ys"
  by (simp add: set_iterationD)

lemma idempotent_store_assign:
  "idempotent_store sc \<Longrightarrow> assign sc perm p ob s = (s', r) \<Longrightarrow>
   currentGrants sc p' ob' s' =
     (if r = None \<and> p' = p \<and> ob' = ob then insert perm (currentGrants sc p' ob' s)
      else currentGrants sc p' ob' s)"
  unfolding idempotent_store_def by (metis fst_conv snd_conv)

lemma idempotent_store_remove_perm:
  "idempotent_store sc \<Longrightarrow> remove_perm sc perm p ob s = (s', r) \<Longrightarrow>
   currentGrants sc p' ob' s' =
     (if r = None \<and> p' = p \<and> ob' = ob then currentGrants sc p' ob' s - {perm}
      else currentGrants sc p' ob' s)"
  unfolding idempotent_store_def by (metis fst_conv snd_conv)

lemma for_each_remove_perm_grants:
  assumes "idempotent_store sc"
  shows "for_each (\<lambda>perm. remove_perm sc perm p ob) xs s = (s', r) \<Longrightarrow>
    \<exists>R. R \<subseteq> set xs \<and> (r = None \<longrightarrow> R = set xs) \<and>
      (\<forall>p' ob'. currentGrants sc p' ob' s' =
         (if p' = p \<and> ob' = ob then currentGrants sc p' ob' s - R else currentGrants sc p' ob' s))"
proof (induction xs arbitrary: s)
  case Nil
  then show ?case by auto
next
  case (Cons x xs)
  obtain s1 r1 where x: "remove_perm sc x p ob s = (s1, r1)" by (cases "remove_perm sc x p ob s")
  note g1 = idempotent_store_remove_perm [OF assms x]
  show ?case
  proof (cases r1)
    case None
    with x Cons.prems have "for_each (\<lambda>perm. remove_perm sc perm p ob) xs s1 = (s', r)" by simp
    from Cons.IH [OF this] obtain R where R: "R \<subseteq> set xs" "r = None \<longrightarrow> R = set xs"
      "\<forall>p' ob'. currentGrants sc p' ob' s' =
         (if p' = p \<and> ob' = ob then currentGrants sc p' ob' s1 - R else currentGrants sc p' ob' s1)"
      by blast
    show ?thesis
    proof (intro exI [of _ "insert x R"] conjI allI)
      show "insert x R \<subseteq> set (x # xs)" using R(1) by auto
      show "r = None \<longrightarrow> insert x R = set (x # xs)" using R(2) by auto
      fix p' ob'
      show "currentGrants sc p' ob' s' =
        (if p' = p \<and> ob' = ob then currentGrants sc p' ob' s - insert x R else currentGrants sc p' ob' s)"
        using R(3) g1 None by auto
    qed
  next
    case (Some e)
    with x Cons.prems have "s' = s1" "r = Some e" by simp_all
    with g1 Some show ?thesis by (intro exI [of _ "{}"]) simp
  qed
qed

lemma for_each_assign_grants:
  assumes "idempotent_store sc"
  shows "for_each (\<lambda>perm. assign sc perm p ob) xs s = (s', r) \<Longrightarrow>
    \<exists>A. A \<subseteq> set xs \<and> (r = None \<longrightarrow> A = set xs) \<and>
      (\<forall>p' ob'. currentGrants sc p' ob' s' =
         (if p' = p \<and> ob' = ob then currentGrants sc p' ob' s \<union> A else currentGrants sc p' ob' s))"
proof (induction xs arbitrary: s)
  case Nil
  then show ?case by auto
next
  case (Cons x xs)
  obtain s1 r1 where x: "assign sc x p ob s = (s1, r1)" by (cases "assign sc x p ob s")
  note g1 = idempotent_store_assign [OF assms x]
  show ?case
  proof (cases r1)
    case None
    with x Cons.prems have "for_each (\<lambda>perm. assign sc perm p ob) xs s1 = (s', r)" by simp
    from Cons.IH [OF this] obtain A where A: "A \<subseteq> set xs" "r = None \<longrightarrow> A = set xs"
      "\<forall>p' ob'. currentGrants sc p' ob' s' =
         (if p' = p \<and> ob' = ob then currentGrants sc p' ob' s1 \<union> A else currentGrants sc p' ob' s1)"
      by blast
    show ?thesis
    proof (intro exI [of _ "insert x A"] conjI allI)
      show "insert x A \<subseteq> set (x # xs)" using A(1) by auto
      show "r = None \<longrightarrow> insert x A = set (x # xs)" using A(2) by auto
      fix p' ob'
      show "currentGrants sc p' ob' s' =
        (if p' = p \<and> ob' = ob then currentGrants sc p' ob' s \<union> insert x A else currentGrants sc p' ob' s)"
        using A(3) g1 None by auto
    qed
  next
    case (Some e)
    with x Cons.prems have "s' = s1" "r = Some e" by simp_all
    with g1 Some show ?thesis by (intro exI [of _ "{}"]) simp
  qed
qed

lemma reconcile_grants:
  assumes st: "idempotent_store sc" and it: "set_iteration iter"
    and run: "reconcile sc iter p ob allCodes desired s = (s', r)"
  shows "\<exists>R A. R \<subseteq> set allCodes - set desired \<and> A \<subseteq> set desired \<and>
      (r = None \<longrightarrow> R = set allCodes - set desired \<and> A = set desired) \<and>
      (\<forall>p' ob'. currentGrants sc p' ob' s' =
         (if p' = p \<and> ob' = ob then (currentGrants sc p' ob' s - R) \<union> A
          else currentGrants sc p' ob' s))"
proof -
  let ?rs = "iter (set_difference allCodes desired)"
  have rs: "set ?rs = set allCodes - set desired" using it by (rule set_iter_set_difference)
  obtain s1 r1 where rem: "for_each (\<lambda>perm. remove_perm sc perm p ob) ?rs s = (s1, r1)"
    by (cases "for_each (\<lambda>perm. remove_perm sc perm p ob) ?rs s")
  from for_each_remove_perm_grants [OF st rem] rs obtain R where
    R: "R \<subseteq> set allCodes - set desired" "r1 = None \<longrightarrow> R = set allCodes - set desired"
      "\<forall>p' ob'. currentGrants sc p' ob' s1 =
         (if p' = p \<and> ob' = ob then currentGrants sc p' ob' s - R else currentGrants sc p' ob' s)"
    by auto
  show ?thesis
  proof (cases r1)
    case (Some e)
    with run rem have "s' = s1" "r = Some e" by (simp_all add: reconcile_unfold)
    with R show ?thesis by (intro exI [of _ R] exI [of _ "{}"]) simp
  next
    case None
    with run rem have asg: "for_each (\<lambda>perm. assign sc perm p ob) desired s1 = (s', r)"
      by (simp add: reconcile_unfold)
    from for_each_assign_grants [OF st asg] obtain A where
      A: "A \<subseteq> set desired" "r = None \<longrightarrow> A = set desired"
        "\<forall>p' ob'. currentGrants sc p' ob' s' =
           (if p' = p \<and> ob' = ob then currentGrants sc p' ob' s1 \<union> A else currentGrants sc p' ob' s1)"
      by blast
    have "r = None \<longrightarrow> R = set allCodes - set desired \<and> A = set desired"
      using R(2) A(2) None by simp
    moreover have "\<forall>p' ob'. currentGrants sc p' ob' s' =
         (if p' = p \<and> ob' = ob then (currentGrants sc p' ob' s - R) \<union> A
          else currentGrants sc p' ob' s)"
      using R(3) A(3) by simp
    ultimately show ?thesis using R(1) A(1) by blast
  qed
qed

lemma currentGrants_list_store:
  "currentGrants (list_store faulty catalog) p ob s = {perm. (p, ob, perm) \<in> set s}"
  by (force simp: currentGrants_def list_store_def)

lemma idempotent_store_list_store: "idempotent_store (list_store faulty catalog)"
  unfolding idempotent_store_def currentGrants_list_store
  by (auto simp: list_store_def)

lemma set_iteration_id: "set_iteration (\<lambda>xs. xs)"
  by (simp add: set_iteration_def)

lemma set_iteration_rev: "set_iteration rev"
  by (simp add: set_iteration_def)

subsection \<open>The calls of a run\<close>

lemma reconcile_recording_trace:
  assumes "reconcile (recording sc) iter p ob allCodes desired (s, []) = ((s', tr), r)"
  shows "reconcile sc iter p ob allCodes desired s = (s', r) \<and>
    (\<exists>k \<le> length (reconcile_calls iter p ob allCodes desired).
       tr = take k (reconcile_calls iter p ob allCodes desired) \<and>
       (r = None \<longrightarrow> tr = reconcile_calls iter p ob allCodes desired))"
  using for_each_recording_prefix [of sc "reconcile_calls iter p ob allCodes desired" s "[]" s' tr r]
    assms
  by (auto simp: reconcile_def)

lemma set_reconcile_calls:
  "set_iteration iter \<Longrightarrow>
   set (reconcile_calls iter p ob allCodes desired) =
     (\<lambda>c. RemovePerm c p ob) ` (set allCodes - set desired) \<union> (\<lambda>c. Assign c p ob) ` set desired"
  by (simp add: reconcile_calls_def set_iter_set_difference)

lemma removes_first_assigns: "removes_first (map (\<lambda>c. Assign c p ob) xs)"
  by (induction xs) auto

lemma removes_first_append_assigns:
  "removes_first (map (\<lambda>c. RemovePerm c p ob) xs @ map (\<lambda>c. Assign c p' ob') ys)"
  by (induction xs) (auto simp: removes_first_assigns)

lemma removes_first_take: "removes_first cs \<Longrightarrow> removes_first (take k cs)"
proof (induction cs arbitrary: k)
  case Nil
  then show ?case by simp
next
  case (Cons c cs)
  then show ?case by (cases k) (auto dest: in_set_takeD)
qed

lemma removes_first_reconcile_calls: "removes_first (reconcile_calls iter p ob allCodes desired)"
  by (simp add: reconcile_calls_def removes_first_append_assigns)

lemma reconcile_calls_distinct_removals:
  assumes "set_iteration iter"
  shows "\<exists>rs. distinct rs \<and> set rs = set allCodes - set desired \<and>
    reconcile_calls iter p ob allCodes desired =
      map (\<lambda>c. RemovePerm c p ob) rs @ map (\<lambda>c. Assign c p ob) desired"
proof (intro exI conjI)
  show "distinct (iter (set_difference allCodes desired))"
    using assms by (simp add: set_iterationD)
  show "set (iter (set_difference allCodes desired)) = set allCodes - set desired"
    using assms by (rule set_iter_set_difference)
  show "reconcile_calls iter p ob allCodes desired =
      map (\<lambda>c. RemovePerm c p ob) (iter (set_difference allCodes desired))
        @ map (\<lambda>c. Assign c p ob) desired"
    by (simp add: reconcile_calls_def)
qed

lemma reconcile_calls_principal:
  "c \<in> set (reconcile_calls iter p ob allCodes desired) \<Longrightarrow> call_principal c = p"
  by (auto simp: reconcile_calls_def)

lemma reconcile_recording_principal:
  assumes "reconcile (recording sc) iter p ob allCodes desired (s, []) = ((s', tr), r)"
    and "c \<in> set tr"
  shows "call_principal c = p"
proof -
  from reconcile_recording_trace [OF assms(1)] obtain k where
    "tr = take k (reconcile_calls iter p ob allCodes desired)" by blast
  with assms(2) have "c \<in> set (reconcile_calls iter p ob allCodes desired)"
    by (auto dest: in_set_takeD)
  then show ?thesis by (rule reconcile_calls_principal)
qed

lemma take_removals_complete:
  assumes "c \<in> set (take k (map (\<lambda>x. RemovePerm x p ob) rs @ ys))" and "\<not> is_remove c"
  shows "set (map (\<lambda>x. RemovePerm x p ob) rs) \<subseteq> set (take k (map (\<lambda>x. RemovePerm x p ob) rs @ ys))"
proof (cases "k \<le> length rs")
  case True
  with assms(1) have "c \<in> set (map (\<lambda>x. RemovePerm x p ob) rs)"
    by (auto dest: in_set_takeD)
  with assms(2) show ?thesis by auto
next
  case False
  then show ?thesis by simp
qed

lemma reconcile_recording_order:
  assumes it: "set_iteration iter"
    and run: "reconcile (recording sc) iter p ob allCodes desired (s, []) = ((s', tr), r)"
  shows "removes_first tr \<and>
    ((\<exists>c \<in> set tr. \<not> is_remove c) \<longrightarrow>
       (\<forall>x \<in> set allCodes - set desired. RemovePerm x p ob \<in> set tr))"
proof -
  let ?rs = "iter (set_difference allCodes desired)"
  let ?cs = "reconcile_calls iter p ob allCodes desired"
  from reconcile_recording_trace [OF run] obtain k where tr: "tr = take k ?cs" by blast
  have first: "removes_first tr"
    unfolding tr by (rule removes_first_take) (rule removes_first_reconcile_calls)
  have cs: "?cs = map (\<lambda>x. RemovePerm x p ob) ?rs @ map (\<lambda>c. Assign c p ob) desired"
    by (simp add: reconcile_calls_def)
  have all: "\<forall>x \<in> set allCodes - set desired. RemovePerm x p ob \<in> set tr"
    if "c \<in> set tr" "\<not> is_remove c" for c
  proof
    fix x assume "x \<in> set allCodes - set desired"
    then have "x \<in> set ?rs" using it by (simp add: set_iter_set_difference)
    then have "RemovePerm x p ob \<in> set (map (\<lambda>x. RemovePerm x p ob) ?rs)" by simp
    moreover from that have "set (map (\<lambda>x. RemovePerm x p ob) ?rs) \<subseteq> set tr"
      unfolding tr cs by (rule take_removals_complete)
    ultimately show "RemovePerm x p ob \<in> set tr" by blast
  qed
  from first all show ?thesis by blast
qed

subsection \<open>Resolving a principal\<close>

lemma resolvePrincipal_NotFound:
  "resolvePrincipal candidateSet selectedId = Inl NotFoundError
     \<longleftrightarrow> selectedId \<notin> principal_id ` set candidateSet"
proof (cases "filter (\<lambda>p. principal_id p = selectedId) candidateSet")
  case Nil
  then have "selectedId \<notin> principal_id ` set candidateSet"
    by (auto simp: filter_empty_conv)
  with Nil show ?thesis by (simp add: resolvePrincipal_def)
next
  case (Cons p ps)
  then have "p \<in> set (filter (\<lambda>p. principal_id p = selectedId) candidateSet)" by simp
  then have "selectedId \<in> principal_id ` set candidateSet" by auto
  with Cons show ?thesis by (simp add: resolvePrincipal_def)
qed

lemma filter_distinct_key:
  "distinct (map f xs) \<Longrightarrow> x \<in> set xs \<Longrightarrow> filter (\<lambda>y. f y = f x) xs = [x]"
proof (induction xs)
  case Nil
  then show ?case by simp
next
  case (Cons y ys)
  show ?case
  proof (cases "y = x")
    case True
    with Cons.prems have "f x \<notin> f ` set ys" by simp
    then have "\<forall>z \<in> set ys. f z \<noteq> f x" by (metis imageI)
    then have "filter (\<lambda>z. f z = f x) ys = []" by (simp add: filter_empty_conv)
    with True show ?thesis by simp
  next
    case False
    with Cons.prems have in_ys: "x \<in> set ys" by simp
    from Cons.prems have "f y \<notin> f ` set ys" by simp
    with in_ys have "f y \<noteq> f x" by (metis imageI)
    with Cons in_ys show ?thesis by simp
  qed
qed

lemma resolvePrincipal_Inr:
  assumes "distinct (map principal_id candidateSet)"
  shows "resolvePrincipal candidateSet selectedId = Inr p
     \<longleftrightarrow> p \<in> set candidateSet \<and> principal_id p = selectedId"
proof
  assume "resolvePrincipal candidateSet selectedId = Inr p"
  then obtain ps where "filter (\<lambda>q. principal_id q = selectedId) candidateSet = p # ps"
    by (auto simp: resolvePrincipal_def split: list.splits)
  then have "p \<in> set (filter (\<lambda>q. principal_id q = selectedId) candidateSet)" by simp
  then show "p \<in> set candidateSet \<and> principal_id p = selectedId" by simp
next
  assume "p \<in> set candidateSet \<and> principal_id p = selectedId"
  with filter_distinct_key [OF assms, of p] show "resolvePrincipal candidateSet selectedId = Inr p"
    by (auto simp: resolvePrincipal_def)
qed

section \<open>The claims\<close>

text \<open>
  Claim C1. Let the desired permissions be among the codenames of the catalog
  of the object's model. When \<^verbatim>\<open>save_obj_perms\<close> of the user form returns
  without an exception, on a store that meets the contract of the grant store,
  the grants the user holds on the object, restricted to the codenames of the
  catalog, are exactly the desired ones.
\<close>

theorem save_obj_perms_stores_desired:
  assumes "idempotent_store sc" and "set_iteration iter"
    and "set (permissions form) \<subseteq> set (map fst (get_obj_perms_field_choices sc (obj form)))"
    and "User_save_obj_perms sc iter form s = (s', None)"
  shows "currentGrants sc (user form) (obj form) s'
           \<inter> set (map fst (get_obj_perms_field_choices sc (obj form)))
         = set (permissions form)"
proof -
  from assms(4) have "reconcile sc iter (user form) (obj form)
      (map fst (get_obj_perms_field_choices sc (obj form))) (permissions form) s = (s', None)"
    by (simp add: User_save_obj_perms_reconcile)
  from reconcile_grants [OF assms(1,2) this] assms(3) show ?thesis by auto
qed

theorem save_obj_perms_stores_desired_witness:
  "idempotent_store (list_store never post_permissions)
   \<and> set_iteration (rev :: string list \<Rightarrow> string list)
   \<and> set [''delete_post''] \<subseteq> set (map fst (get_obj_perms_field_choices (list_store never post_permissions) (7::nat)))
   \<and> User_save_obj_perms (list_store never post_permissions) rev
        \<lparr>obj = 7, permissions = [''delete_post''], user = User 1\<rparr>
        [(User 1, 7, ''view_post''), (User 1, 7, ''change_post'')]
      = ([(User 1, 7, ''delete_post'')], None)
   \<and> currentGrants (list_store never post_permissions) (User 1) 7 [(User 1, 7, ''delete_post'')]
        \<inter> set (map fst (get_obj_perms_field_choices (list_store never post_permissions) (7::nat)))
      = {''delete_post''}"
proof -
  let ?sc = "list_store never post_permissions"
  let ?form = "\<lparr>obj = 7::nat, permissions = [''delete_post''], user = User 1\<rparr>"
  have h1: "idempotent_store ?sc" by (rule idempotent_store_list_store)
  have h2: "set_iteration (rev :: string list \<Rightarrow> string list)" by (rule set_iteration_rev)
  have h3: "set (permissions ?form) \<subseteq> set (map fst (get_obj_perms_field_choices ?sc (obj ?form)))"
    by (simp add: get_obj_perms_field_choices_def list_store_def post_permissions_def)
  have h4: "User_save_obj_perms ?sc rev ?form [(User 1, 7, ''view_post''), (User 1, 7, ''change_post'')]
      = ([(User 1, 7, ''delete_post'')], None)"
    by (simp add: User_save_obj_perms_def get_obj_perms_field_choices_def list_store_def
        post_permissions_def set_difference_def never_def)
  from save_obj_perms_stores_desired [OF h1 h2 h3 h4] h1 h2 h3 h4 show ?thesis by simp
qed

text \<open>
  Claim C2 as it is stated fails for desired permissions that are not all in
  the catalog: \<^verbatim>\<open>publish_post\<close> is not a permission of posts, the user does not
  hold it, and \<^verbatim>\<open>save_obj_perms\<close> with \<^verbatim>\<open>publish_post\<close> desired calls \<^verbatim>\<open>assign\<close>
  for it, after which the user holds it.
\<close>

theorem outside_catalog_assigned_counterexample:
  "User_save_obj_perms (recording (list_store never post_permissions)) rev
      \<lparr>obj = 7, permissions = [''publish_post''], user = User 1\<rparr>
      ([(User 1, 7, ''view_post'')], [])
    = (([(User 1, 7, ''publish_post'')],
        [RemovePerm ''delete_post'' (User 1) 7, RemovePerm ''change_post'' (User 1) 7,
         RemovePerm ''view_post'' (User 1) 7, Assign ''publish_post'' (User 1) 7]), None)
   \<and> ''publish_post'' \<notin> set (map fst (get_obj_perms_field_choices (list_store never post_permissions) (7::nat)))
   \<and> ''publish_post'' \<notin> currentGrants (list_store never post_permissions) (User 1) (7::nat)
         [(User 1, 7, ''view_post'')]
   \<and> ''publish_post'' \<in> currentGrants (list_store never post_permissions) (User 1) (7::nat)
         [(User 1, 7, ''publish_post'')]"
  by (simp add: User_save_obj_perms_def get_obj_perms_field_choices_def list_store_def
      recording_def post_permissions_def set_difference_def never_def currentGrants_def)

text \<open>
  Claim C2, as amended. Whatever the desired permissions are, and whether the
  run returns or raises, \<^verbatim>\<open>save_obj_perms\<close> of the user form and of the group
  form, on a store that meets the contract of the grant store, removes no
  grant whose codename is outside the catalog and adds only grants whose
  codename is among the desired ones, for any principal and object. So when
  the desired permissions are among the codenames of the catalog, as they are
  after the form is validated, the grants outside the catalog are untouched.
\<close>

theorem save_obj_perms_frame:
  assumes "idempotent_store sc" and "set_iteration iter"
    and "User_save_obj_perms sc iter uform s = (s', r)"
    and "Group_save_obj_perms sc iter gform t = (t', q)"
  shows "(currentGrants sc p ob s - set (map fst (get_obj_perms_field_choices sc (obj uform)))
            \<subseteq> currentGrants sc p ob s'
          \<and> currentGrants sc p ob s' \<subseteq> currentGrants sc p ob s \<union> set (permissions uform)
          \<and> (set (permissions uform) \<subseteq> set (map fst (get_obj_perms_field_choices sc (obj uform)))
               \<longrightarrow> currentGrants sc p ob s' - set (map fst (get_obj_perms_field_choices sc (obj uform)))
                  = currentGrants sc p ob s - set (map fst (get_obj_perms_field_choices sc (obj uform)))))
       \<and> (currentGrants sc p ob t - set (map fst (get_obj_perms_field_choices sc (obj gform)))
            \<subseteq> currentGrants sc p ob t'
          \<and> currentGrants sc p ob t' \<subseteq> currentGrants sc p ob t \<union> set (permissions gform)
          \<and> (set (permissions gform) \<subseteq> set (map fst (get_obj_perms_field_choices sc (obj gform)))
               \<longrightarrow> currentGrants sc p ob t' - set (map fst (get_obj_perms_field_choices sc (obj gform)))
                  = currentGrants sc p ob t - set (map fst (get_obj_perms_field_choices sc (obj gform)))))"
proof -
  from assms(3) have u: "reconcile sc iter (user uform) (obj uform)
      (map fst (get_obj_perms_field_choices sc (obj uform))) (permissions uform) s = (s', r)"
    by (simp add: User_save_obj_perms_reconcile)
  from assms(4) have g: "reconcile sc iter (group gform) (obj gform)
      (map fst (get_obj_perms_field_choices sc (obj gform))) (permissions gform) t = (t', q)"
    by (simp add: Group_save_obj_perms_reconcile)
  from reconcile_grants [OF assms(1,2) u] obtain R A where
    u': "R \<subseteq> set (map fst (get_obj_perms_field_choices sc (obj uform))) - set (permissions uform)"
      "A \<subseteq> set (permissions uform)"
      "currentGrants sc p ob s' =
         (if p = user uform \<and> ob = obj uform then (currentGrants sc p ob s - R) \<union> A
          else currentGrants sc p ob s)"
    by blast
  from reconcile_grants [OF assms(1,2) g] obtain R' A' where
    g': "R' \<subseteq> set (map fst (get_obj_perms_field_choices sc (obj gform))) - set (permissions gform)"
      "A' \<subseteq> set (permissions gform)"
      "currentGrants sc p ob t' =
         (if p = group gform \<and> ob = obj gform then (currentGrants sc p ob t - R') \<union> A'
          else currentGrants sc p ob t)"
    by blast
  from u' have "currentGrants sc p ob s - set (map fst (get_obj_perms_field_choices sc (obj uform)))
            \<subseteq> currentGrants sc p ob s'
          \<and> currentGrants sc p ob s' \<subseteq> currentGrants sc p ob s \<union> set (permissions uform)"
    by (auto split: if_splits)
  moreover from g' have "currentGrants sc p ob t - set (map fst (get_obj_perms_field_choices sc (obj gform)))
            \<subseteq> currentGrants sc p ob t'
          \<and> currentGrants sc p ob t' \<subseteq> currentGrants sc p ob t \<union> set (permissions gform)"
    by (auto split: if_splits)
  ultimately show ?thesis by blast
qed

theorem save_obj_perms_frame_witness:
  "idempotent_store (list_store never post_permissions)
   \<and> set_iteration (rev :: string list \<Rightarrow> string list)
   \<and> User_save_obj_perms (list_store never post_permissions) rev
        \<lparr>obj = 7, permissions = [''delete_post''], user = User 1\<rparr>
        [(User 1, 7, ''view_post''), (User 1, 7, ''legacy_perm''), (Group 2, 7, ''legacy_perm'')]
      = ([(User 1, 7, ''legacy_perm''), (Group 2, 7, ''legacy_perm''), (User 1, 7, ''delete_post'')], None)
   \<and> Group_save_obj_perms (list_store never post_permissions) rev
        \<lparr>obj = 7, permissions = [], group = Group 2\<rparr>
        [(User 1, 7, ''view_post''), (User 1, 7, ''legacy_perm''), (Group 2, 7, ''legacy_perm'')]
      = ([(User 1, 7, ''view_post''), (User 1, 7, ''legacy_perm''), (Group 2, 7, ''legacy_perm'')], None)
   \<and> set [''delete_post''] \<subseteq> set (map fst (get_obj_perms_field_choices (list_store never post_permissions) (7::nat)))
   \<and> currentGrants (list_store never post_permissions) (User 1) 7
        [(User 1, 7, ''legacy_perm''), (Group 2, 7, ''legacy_perm''), (User 1, 7, ''delete_post'')]
        - set (map fst (get_obj_perms_field_choices (list_store never post_permissions) (7::nat)))
      = currentGrants (list_store never post_permissions) (User 1) 7
        [(User 1, 7, ''view_post''), (User 1, 7, ''legacy_perm''), (Group 2, 7, ''legacy_perm'')]
        - set (map fst (get_obj_perms_field_choices (list_store never post_permissions) (7::nat)))
   \<and> currentGrants (list_store never post_permissions) (Group 2) 7
        [(User 1, 7, ''view_post''), (User 1, 7, ''legacy_perm''), (Group 2, 7, ''legacy_perm'')]
        - set (map fst (get_obj_perms_field_choices (list_store never post_permissions) (7::nat)))
      \<subseteq> currentGrants (list_store never post_permissions) (Group 2) 7
        [(User 1, 7, ''view_post''), (User 1, 7, ''legacy_perm''), (Group 2, 7, ''legacy_perm'')]"
proof -
  let ?sc = "list_store never post_permissions"
  let ?uform = "\<lparr>obj = 7::nat, permissions = [''delete_post''], user = User 1\<rparr>"
  let ?gform = "\<lparr>obj = 7::nat, permissions = [], group = Group 2\<rparr>"
  let ?s = "[(User 1, 7::nat, ''view_post''), (User 1, 7, ''legacy_perm''), (Group 2, 7, ''legacy_perm'')]"
  let ?s' = "[(User 1, 7::nat, ''legacy_perm''), (Group 2, 7, ''legacy_perm''), (User 1, 7, ''delete_post'')]"
  have h1: "idempotent_store ?sc" by (rule idempotent_store_list_store)
  have h2: "set_iteration (rev :: string list \<Rightarrow> string list)" by (rule set_iteration_rev)
  have h3: "User_save_obj_perms ?sc rev ?uform ?s = (?s', None)"
    by (simp add: User_save_obj_perms_def get_obj_perms_field_choices_def list_store_def
        post_permissions_def set_difference_def never_def)
  have h4: "Group_save_obj_perms ?sc rev ?gform ?s = (?s, None)"
    by (simp add: Group_save_obj_perms_def get_obj_perms_field_choices_def list_store_def
        post_permissions_def set_difference_def never_def)
  have h5: "set (permissions ?uform) \<subseteq> set (map fst (get_obj_perms_field_choices ?sc (obj ?uform)))"
    by (simp add: get_obj_perms_field_choices_def list_store_def post_permissions_def)
  note th = save_obj_perms_frame [OF h1 h2 h3 h4]
  from th [of "User 1" 7] h5
  have c1: "currentGrants ?sc (User 1) 7 ?s' - set (map fst (get_obj_perms_field_choices ?sc (7::nat)))
      = currentGrants ?sc (User 1) 7 ?s - set (map fst (get_obj_perms_field_choices ?sc (7::nat)))"
    by simp
  from th [of "Group 2" 7]
  have c2: "currentGrants ?sc (Group 2) 7 ?s - set (map fst (get_obj_perms_field_choices ?sc (7::nat)))
      \<subseteq> currentGrants ?sc (Group 2) 7 ?s"
    by simp
  from h1 h2 h3 h4 h5 c1 c2 show ?thesis by simp
qed

text \<open>
  Claim C3. Let \<open>cs\<close> be the calls \<^verbatim>\<open>save_obj_perms\<close> of the user form has to
  make, in order. If the first \<open>k\<close> of them return, leaving the store \<open>sk\<close>, and
  the next one raises \<open>e\<close>, leaving the store \<open>sf\<close>, then \<^verbatim>\<open>save_obj_perms\<close> raises
  \<open>e\<close>; the calls it has made are those \<open>k\<close> and the one that raised, and none
  after it; and the store is \<open>sf\<close>, what the raising call left of \<open>sk\<close>: the
  writes of the \<open>k\<close> calls before it are not undone.
\<close>

theorem save_obj_perms_aborts_on_failure:
  assumes "cs = reconcile_calls iter (user form) (obj form)
                  (map fst (get_obj_perms_field_choices sc (obj form))) (permissions form)"
    and "k < length cs"
    and "for_each (apply_call sc) (take k cs) s = (sk, None)"
    and "apply_call sc (cs ! k) sk = (sf, Some e)"
  shows "User_save_obj_perms (recording sc) iter form (s, []) = ((sf, take (Suc k) cs), Some e)
       \<and> User_save_obj_perms sc iter form s = (sf, Some e)"
  using for_each_recording_fail [OF assms(2,3,4), of "[]"] assms(1)
  by (simp add: User_save_obj_perms_reconcile reconcile_def)

theorem save_obj_perms_aborts_on_failure_witness:
  "[RemovePerm ''view_post'' (User 1) 7, RemovePerm ''change_post'' (User 1) 7,
    Assign ''delete_post'' (User 1) 7]
    = reconcile_calls (\<lambda>xs. xs) (User 1) (7::nat)
        (map fst (get_obj_perms_field_choices
           (list_store (\<lambda>c. c = RemovePerm ''change_post'' (User 1) 7) post_permissions) 7))
        [''delete_post'']
   \<and> (1::nat) < length [RemovePerm ''view_post'' (User 1) (7::nat), RemovePerm ''change_post'' (User 1) 7,
        Assign ''delete_post'' (User 1) 7]
   \<and> for_each (apply_call (list_store (\<lambda>c. c = RemovePerm ''change_post'' (User 1) 7) post_permissions))
        [RemovePerm ''view_post'' (User 1) 7]
        [(User 1, 7, ''view_post''), (User 1, 7, ''change_post'')]
      = ([(User 1, 7, ''change_post'')], None)
   \<and> apply_call (list_store (\<lambda>c. c = RemovePerm ''change_post'' (User 1) 7) post_permissions)
        (RemovePerm ''change_post'' (User 1) 7) [(User 1, 7, ''change_post'')]
      = ([(User 1, 7, ''change_post'')], Some StoreOperationError)
   \<and> User_save_obj_perms
        (recording (list_store (\<lambda>c. c = RemovePerm ''change_post'' (User 1) 7) post_permissions))
        (\<lambda>xs. xs) \<lparr>obj = 7, permissions = [''delete_post''], user = User 1\<rparr>
        ([(User 1, 7, ''view_post''), (User 1, 7, ''change_post'')], [])
      = (([(User 1, 7, ''change_post'')],
          [RemovePerm ''view_post'' (User 1) 7, RemovePerm ''change_post'' (User 1) 7]),
         Some StoreOperationError)"
proof -
  let ?sc = "list_store (\<lambda>c. c = RemovePerm ''change_post'' (User 1) (7::nat)) post_permissions"
  let ?form = "\<lparr>obj = 7::nat, permissions = [''delete_post''], user = User 1\<rparr>"
  let ?cs = "[RemovePerm ''view_post'' (User 1) (7::nat), RemovePerm ''change_post'' (User 1) 7,
    Assign ''delete_post'' (User 1) 7]"
  let ?s = "[(User 1, 7::nat, ''view_post''), (User 1, 7, ''change_post'')]"
  have h1: "?cs = reconcile_calls (\<lambda>xs. xs) (user ?form) (obj ?form)
      (map fst (get_obj_perms_field_choices ?sc (obj ?form))) (permissions ?form)"
    by (simp add: reconcile_calls_def get_obj_perms_field_choices_def list_store_def
        post_permissions_def set_difference_def)
  have h2: "1 < length ?cs" by simp
  have h3: "for_each (apply_call ?sc) (take 1 ?cs) ?s = ([(User 1, 7, ''change_post'')], None)"
    by (simp add: apply_call_def list_store_def)
  have h4: "apply_call ?sc (?cs ! 1) [(User 1, 7, ''change_post'')]
      = ([(User 1, 7, ''change_post'')], Some StoreOperationError)"
    by (simp add: apply_call_def list_store_def)
  have c: "User_save_obj_perms (recording ?sc) (\<lambda>xs. xs) ?form (?s, [])
      = (([(User 1, 7, ''change_post'')],
          [RemovePerm ''view_post'' (User 1) 7, RemovePerm ''change_post'' (User 1) 7]),
         Some StoreOperationError)"
    using save_obj_perms_aborts_on_failure [OF h1 h2 h3 h4] by simp
  have g1: "?cs = reconcile_calls (\<lambda>xs. xs) (User 1) (7::nat)
      (map fst (get_obj_perms_field_choices ?sc 7)) [''delete_post'']"
    using h1 by simp
  have g3: "for_each (apply_call ?sc) [RemovePerm ''view_post'' (User 1) 7] ?s
      = ([(User 1, 7, ''change_post'')], None)"
    using h3 by simp
  have g4: "apply_call ?sc (RemovePerm ''change_post'' (User 1) 7) [(User 1, 7, ''change_post'')]
      = ([(User 1, 7, ''change_post'')], Some StoreOperationError)"
    using h4 by simp
  from g1 h2 g3 g4 c show ?thesis by blast
qed

text \<open>
  Claim C4. \<^verbatim>\<open>save_obj_perms\<close> of the user form is the reconciliation of the
  specification: the removal set is the codenames of the catalog minus the
  desired ones, and the assignment set is all the desired ones, whatever the
  user holds already. In a run in which no call raises, the calls made are one
  \<^verbatim>\<open>remove_perm\<close> for each element of the removal set, each once, followed by
  one \<^verbatim>\<open>assign\<close> for each element of the desired list, in the order submitted.
\<close>

theorem save_obj_perms_calls:
  assumes "set_iteration iter"
    and "User_save_obj_perms (recording sc) iter form (s, []) = ((s', tr), None)"
  shows "User_save_obj_perms sc iter form s =
           reconcile sc iter (user form) (obj form)
             (map fst (get_obj_perms_field_choices sc (obj form))) (permissions form) s
       \<and> (\<exists>rs. distinct rs
            \<and> set rs = set (map fst (get_obj_perms_field_choices sc (obj form))) - set (permissions form)
            \<and> tr = map (\<lambda>c. RemovePerm c (user form) (obj form)) rs
                   @ map (\<lambda>c. Assign c (user form) (obj form)) (permissions form))"
proof -
  let ?M = "map fst (get_obj_perms_field_choices sc (obj form))"
  from assms(2) have "reconcile (recording sc) iter (user form) (obj form) ?M (permissions form) (s, [])
      = ((s', tr), None)"
    by (simp add: User_save_obj_perms_reconcile)
  from reconcile_recording_trace [OF this]
  have "tr = reconcile_calls iter (user form) (obj form) ?M (permissions form)" by blast
  with reconcile_calls_distinct_removals [OF assms(1), of ?M "permissions form" "user form" "obj form"]
  show ?thesis by (simp add: User_save_obj_perms_reconcile)
qed

theorem save_obj_perms_calls_witness:
  "set_iteration (rev :: string list \<Rightarrow> string list)
   \<and> User_save_obj_perms (recording (list_store never post_permissions)) rev
        \<lparr>obj = 7, permissions = [''delete_post'', ''view_post''], user = User 1\<rparr>
        ([(User 1, 7, ''delete_post''), (User 1, 7, ''change_post'')], [])
      = (([(User 1, 7, ''delete_post''), (User 1, 7, ''view_post'')],
          [RemovePerm ''change_post'' (User 1) 7, Assign ''delete_post'' (User 1) 7,
           Assign ''view_post'' (User 1) 7]), None)
   \<and> User_save_obj_perms (list_store never post_permissions) rev
        \<lparr>obj = 7, permissions = [''delete_post'', ''view_post''], user = User 1\<rparr>
        [(User 1, 7, ''delete_post''), (User 1, 7, ''change_post'')]
      = reconcile (list_store never post_permissions) rev (User 1) 7
          [''view_post'', ''change_post'', ''delete_post''] [''delete_post'', ''view_post'']
          [(User 1, 7, ''delete_post''), (User 1, 7, ''change_post'')]
   \<and> (\<exists>rs. distinct rs
        \<and> set rs = set [''view_post'', ''change_post'', ''delete_post'']
                    - set [''delete_post'', ''view_post'']
        \<and> [RemovePerm ''change_post'' (User 1) (7::nat), Assign ''delete_post'' (User 1) 7,
           Assign ''view_post'' (User 1) 7]
          = map (\<lambda>c. RemovePerm c (User 1) 7) rs
            @ map (\<lambda>c. Assign c (User 1) 7) [''delete_post'', ''view_post''])"
proof -
  let ?sc = "list_store never post_permissions"
  let ?form = "\<lparr>obj = 7::nat, permissions = [''delete_post'', ''view_post''], user = User 1\<rparr>"
  let ?s = "[(User 1, 7::nat, ''delete_post''), (User 1, 7, ''change_post'')]"
  let ?tr = "[RemovePerm ''change_post'' (User 1) (7::nat), Assign ''delete_post'' (User 1) 7,
           Assign ''view_post'' (User 1) 7]"
  have h1: "set_iteration (rev :: string list \<Rightarrow> string list)" by (rule set_iteration_rev)
  have h2: "User_save_obj_perms (recording ?sc) rev ?form (?s, [])
      = (([(User 1, 7, ''delete_post''), (User 1, 7, ''view_post'')], ?tr), None)"
    by (simp add: User_save_obj_perms_def get_obj_perms_field_choices_def list_store_def
        recording_def post_permissions_def set_difference_def never_def)
  have m: "map fst (get_obj_perms_field_choices ?sc (7::nat)) = [''view_post'', ''change_post'', ''delete_post'']"
    by (simp add: get_obj_perms_field_choices_def list_store_def post_permissions_def)
  from save_obj_perms_calls [OF h1 h2]
  have c: "User_save_obj_perms ?sc rev ?form ?s
      = reconcile ?sc rev (User 1) 7 [''view_post'', ''change_post'', ''delete_post'']
          [''delete_post'', ''view_post''] ?s"
    by (simp add: m)
  from save_obj_perms_calls [OF h1 h2]
  have d: "\<exists>rs. distinct rs
        \<and> set rs = set [''view_post'', ''change_post'', ''delete_post'']
                    - set [''delete_post'', ''view_post'']
        \<and> ?tr = map (\<lambda>c. RemovePerm c (User 1) 7) rs
            @ map (\<lambda>c. Assign c (User 1) 7) [''delete_post'', ''view_post'']"
    by (simp add: m)
  from h1 h2 c d show ?thesis by blast
qed

text \<open>
  Claim C5. On a store that meets the contract of the grant store, once
  \<^verbatim>\<open>save_obj_perms\<close> of the user form has returned, calling it again with the
  same desired permissions changes no grant of any principal on any object,
  whether the second call returns or raises.
\<close>

theorem save_obj_perms_idempotent:
  assumes "idempotent_store sc" and "set_iteration iter"
    and "User_save_obj_perms sc iter form s = (s1, None)"
    and "User_save_obj_perms sc iter form s1 = (s2, r)"
  shows "currentGrants sc p ob s2 = currentGrants sc p ob s1"
proof -
  let ?M = "map fst (get_obj_perms_field_choices sc (obj form))"
  let ?D = "permissions form"
  from assms(3) have "reconcile sc iter (user form) (obj form) ?M ?D s = (s1, None)"
    by (simp add: User_save_obj_perms_reconcile)
  from reconcile_grants [OF assms(1,2) this]
  have g1: "currentGrants sc (user form) (obj form) s1 =
      (currentGrants sc (user form) (obj form) s - (set ?M - set ?D)) \<union> set ?D"
    by auto
  from assms(4) have "reconcile sc iter (user form) (obj form) ?M ?D s1 = (s2, r)"
    by (simp add: User_save_obj_perms_reconcile)
  from reconcile_grants [OF assms(1,2) this] obtain R A where
    RA: "R \<subseteq> set ?M - set ?D" "A \<subseteq> set ?D"
      "currentGrants sc p ob s2 =
         (if p = user form \<and> ob = obj form then (currentGrants sc p ob s1 - R) \<union> A
          else currentGrants sc p ob s1)"
    by blast
  show ?thesis
  proof (cases "p = user form \<and> ob = obj form")
    case True
    with RA g1 show ?thesis by auto
  next
    case False
    with RA(3) show ?thesis by auto
  qed
qed

theorem save_obj_perms_idempotent_witness:
  "idempotent_store (list_store never post_permissions)
   \<and> set_iteration (rev :: string list \<Rightarrow> string list)
   \<and> User_save_obj_perms (list_store never post_permissions) rev
        \<lparr>obj = 7, permissions = [''delete_post''], user = User 1\<rparr>
        [(User 1, 7, ''view_post''), (User 1, 7, ''change_post'')]
      = ([(User 1, 7, ''delete_post'')], None)
   \<and> User_save_obj_perms (list_store never post_permissions) rev
        \<lparr>obj = 7, permissions = [''delete_post''], user = User 1\<rparr>
        [(User 1, 7, ''delete_post'')]
      = ([(User 1, 7, ''delete_post'')], None)
   \<and> currentGrants (list_store never post_permissions) (User 1) 7 [(User 1, 7, ''delete_post'')]
      = currentGrants (list_store never post_permissions) (User 1) 7 [(User 1, 7, ''delete_post'')]"
proof -
  let ?sc = "list_store never post_permissions"
  let ?form = "\<lparr>obj = 7::nat, permissions = [''delete_post''], user = User 1\<rparr>"
  have h1: "idempotent_store ?sc" by (rule idempotent_store_list_store)
  have h2: "set_iteration (rev :: string list \<Rightarrow> string list)" by (rule set_iteration_rev)
  have h3: "User_save_obj_perms ?sc rev ?form [(User 1, 7, ''view_post''), (User 1, 7, ''change_post'')]
      = ([(User 1, 7, ''delete_post'')], None)"
    by (simp add: User_save_obj_perms_def get_obj_perms_field_choices_def list_store_def
        post_permissions_def set_difference_def never_def)
  have h4: "User_save_obj_perms ?sc rev ?form [(User 1, 7, ''delete_post'')]
      = ([(User 1, 7, ''delete_post'')], None)"
    by (simp add: User_save_obj_perms_def get_obj_perms_field_choices_def list_store_def
        post_permissions_def set_difference_def never_def)
  from h1 h2 h3 h4 save_obj_perms_idempotent [OF h1 h2 h3 h4, of "User 1" 7] show ?thesis by blast
qed

text \<open>
  Claim C6. On a store that meets the contract of the grant store, let
  \<^verbatim>\<open>save_obj_perms\<close> of the user form run with desired permissions \<open>D1\<close> and then,
  for the same user, object and catalog, with \<open>D2\<close>, the second run returning.
  The grants the user then holds on the object, restricted to the codenames of
  the catalog, are the codenames of \<open>D2\<close> in the catalog: they are the same as
  after any other first run, with \<open>D1'\<close> in place of \<open>D1\<close>.
\<close>

theorem save_obj_perms_no_hysteresis:
  assumes "idempotent_store sc" and "set_iteration iter"
    and "User_save_obj_perms sc iter (form\<lparr>permissions := D1\<rparr>) s = (s1, r1)"
    and "User_save_obj_perms sc iter (form\<lparr>permissions := D2\<rparr>) s1 = (s2, None)"
    and "User_save_obj_perms sc iter (form\<lparr>permissions := D1'\<rparr>) s = (s1', r1')"
    and "User_save_obj_perms sc iter (form\<lparr>permissions := D2\<rparr>) s1' = (s2', None)"
  shows "currentGrants sc (user form) (obj form) s2
           \<inter> set (map fst (get_obj_perms_field_choices sc (obj form)))
         = set D2 \<inter> set (map fst (get_obj_perms_field_choices sc (obj form)))
       \<and> currentGrants sc (user form) (obj form) s2
           \<inter> set (map fst (get_obj_perms_field_choices sc (obj form)))
         = currentGrants sc (user form) (obj form) s2'
           \<inter> set (map fst (get_obj_perms_field_choices sc (obj form)))"
proof -
  let ?M = "map fst (get_obj_perms_field_choices sc (obj form))"
  have final: "currentGrants sc (user form) (obj form) t' \<inter> set ?M = set D2 \<inter> set ?M"
    if "User_save_obj_perms sc iter (form\<lparr>permissions := D2\<rparr>) t = (t', None)" for t t'
  proof -
    from that have "reconcile sc iter (user form) (obj form) ?M D2 t = (t', None)"
      by (simp add: User_save_obj_perms_reconcile)
    from reconcile_grants [OF assms(1,2) this] show ?thesis by auto
  qed
  from final [OF assms(4)] final [OF assms(6)] show ?thesis by simp
qed

theorem save_obj_perms_no_hysteresis_witness:
  "idempotent_store (list_store never post_permissions)
   \<and> set_iteration (rev :: string list \<Rightarrow> string list)
   \<and> User_save_obj_perms (list_store never post_permissions) rev
        \<lparr>obj = 7, permissions = [''view_post'', ''change_post''], user = User 1\<rparr> []
      = ([(User 1, 7, ''view_post''), (User 1, 7, ''change_post'')], None)
   \<and> User_save_obj_perms (list_store never post_permissions) rev
        \<lparr>obj = 7, permissions = [''delete_post''], user = User 1\<rparr>
        [(User 1, 7, ''view_post''), (User 1, 7, ''change_post'')]
      = ([(User 1, 7, ''delete_post'')], None)
   \<and> User_save_obj_perms (list_store never post_permissions) rev
        \<lparr>obj = 7, permissions = [], user = User 1\<rparr> []
      = ([], None)
   \<and> User_save_obj_perms (list_store never post_permissions) rev
        \<lparr>obj = 7, permissions = [''delete_post''], user = User 1\<rparr> []
      = ([(User 1, 7, ''delete_post'')], None)
   \<and> currentGrants (list_store never post_permissions) (User 1) 7 [(User 1, 7, ''delete_post'')]
        \<inter> set (map fst (get_obj_perms_field_choices (list_store never post_permissions) (7::nat)))
      = set [''delete_post'']
        \<inter> set (map fst (get_obj_perms_field_choices (list_store never post_permissions) (7::nat)))"
proof -
  let ?sc = "list_store never post_permissions"
  let ?form = "\<lparr>obj = 7::nat, permissions = [], user = User 1\<rparr>"
  let ?s1 = "[(User 1, 7::nat, ''view_post''), (User 1, 7, ''change_post'')]"
  let ?s2 = "[(User 1, 7::nat, ''delete_post'')]"
  note defs = User_save_obj_perms_def get_obj_perms_field_choices_def list_store_def
        post_permissions_def set_difference_def never_def
  have h1: "idempotent_store ?sc" by (rule idempotent_store_list_store)
  have h2: "set_iteration (rev :: string list \<Rightarrow> string list)" by (rule set_iteration_rev)
  have h3: "User_save_obj_perms ?sc rev (?form\<lparr>permissions := [''view_post'', ''change_post'']\<rparr>) []
      = (?s1, None)"
    by (simp add: defs)
  have h4: "User_save_obj_perms ?sc rev (?form\<lparr>permissions := [''delete_post'']\<rparr>) ?s1 = (?s2, None)"
    by (simp add: defs)
  have h5: "User_save_obj_perms ?sc rev (?form\<lparr>permissions := []\<rparr>) [] = ([], None)"
    by (simp add: defs)
  have h6: "User_save_obj_perms ?sc rev (?form\<lparr>permissions := [''delete_post'']\<rparr>) [] = (?s2, None)"
    by (simp add: defs)
  from save_obj_perms_no_hysteresis [OF h1 h2 h3 h4 h5 h6] h1 h2 h3 h4 h5 h6
  show ?thesis by simp
qed

text \<open>
  Claim C7. The removal set computed by \<^verbatim>\<open>save_obj_perms\<close> of the user form,
  the codenames of the catalog minus the desired ones, has no element in
  common with the desired permissions; and in no run, returning or raising, is
  a codename both the argument of a \<^verbatim>\<open>remove_perm\<close> call and of an \<^verbatim>\<open>assign\<close> call.
\<close>

theorem removal_and_assignment_disjoint:
  assumes "set_iteration iter"
    and "User_save_obj_perms (recording sc) iter form (s, []) = ((s', tr), r)"
  shows "set (set_difference (map fst (get_obj_perms_field_choices sc (obj form))) (permissions form))
           \<inter> set (permissions form) = {}
       \<and> (\<forall>a \<in> set tr. \<forall>b \<in> set tr.
            is_remove a \<and> \<not> is_remove b \<longrightarrow> call_codename a \<noteq> call_codename b)"
proof -
  let ?M = "map fst (get_obj_perms_field_choices sc (obj form))"
  let ?cs = "reconcile_calls iter (user form) (obj form) ?M (permissions form)"
  from assms(2) have "reconcile (recording sc) iter (user form) (obj form) ?M (permissions form) (s, [])
      = ((s', tr), r)"
    by (simp add: User_save_obj_perms_reconcile)
  from reconcile_recording_trace [OF this] obtain k where "tr = take k ?cs" by blast
  then have sub: "set tr \<subseteq> set ?cs" by (simp add: set_take_subset)
  have "\<forall>a \<in> set ?cs. \<forall>b \<in> set ?cs.
      is_remove a \<and> \<not> is_remove b \<longrightarrow> call_codename a \<noteq> call_codename b"
    by (auto simp: set_reconcile_calls [OF assms(1)])
  with sub have "\<forall>a \<in> set tr. \<forall>b \<in> set tr.
      is_remove a \<and> \<not> is_remove b \<longrightarrow> call_codename a \<noteq> call_codename b"
    by blast
  then show ?thesis by auto
qed

theorem removal_and_assignment_disjoint_witness:
  "set_iteration (rev :: string list \<Rightarrow> string list)
   \<and> User_save_obj_perms (recording (list_store never post_permissions)) rev
        \<lparr>obj = 7, permissions = [''delete_post'', ''view_post''], user = User 1\<rparr>
        ([(User 1, 7, ''delete_post''), (User 1, 7, ''change_post'')], [])
      = (([(User 1, 7, ''delete_post''), (User 1, 7, ''view_post'')],
          [RemovePerm ''change_post'' (User 1) 7, Assign ''delete_post'' (User 1) 7,
           Assign ''view_post'' (User 1) 7]), None)
   \<and> set (set_difference
            (map fst (get_obj_perms_field_choices (list_store never post_permissions) (7::nat)))
            [''delete_post'', ''view_post''])
        \<inter> set [''delete_post'', ''view_post''] = {}
   \<and> call_codename (RemovePerm ''change_post'' (User 1) (7::nat))
        \<noteq> call_codename (Assign ''delete_post'' (User 1) (7::nat))"
proof -
  let ?sc = "list_store never post_permissions"
  let ?form = "\<lparr>obj = 7::nat, permissions = [''delete_post'', ''view_post''], user = User 1\<rparr>"
  let ?s = "[(User 1, 7::nat, ''delete_post''), (User 1, 7, ''change_post'')]"
  let ?tr = "[RemovePerm ''change_post'' (User 1) (7::nat), Assign ''delete_post'' (User 1) 7,
           Assign ''view_post'' (User 1) 7]"
  have h1: "set_iteration (rev :: string list \<Rightarrow> string list)" by (rule set_iteration_rev)
  have h2: "User_save_obj_perms (recording ?sc) rev ?form (?s, [])
      = (([(User 1, 7, ''delete_post''), (User 1, 7, ''view_post'')], ?tr), None)"
    by (simp add: User_save_obj_perms_def get_obj_perms_field_choices_def list_store_def
        recording_def post_permissions_def set_difference_def never_def)
  note dj = removal_and_assignment_disjoint [OF h1 h2]
  from dj have c1: "set (set_difference (map fst (get_obj_perms_field_choices ?sc (7::nat)))
      [''delete_post'', ''view_post'']) \<inter> set [''delete_post'', ''view_post''] = {}"
    by simp
  from dj have "\<forall>a \<in> set ?tr. \<forall>b \<in> set ?tr.
      is_remove a \<and> \<not> is_remove b \<longrightarrow> call_codename a \<noteq> call_codename b"
    by blast
  then have c2: "call_codename (RemovePerm ''change_post'' (User 1) (7::nat))
        \<noteq> call_codename (Assign ''delete_post'' (User 1) (7::nat))"
    by simp
  from h1 h2 c1 c2 show ?thesis by blast
qed

text \<open>
  Claim C8. Among candidates with distinct ids, resolving the principal fails
  with \<open>NotFoundError\<close> exactly when no candidate has the selected id, and it
  returns \<open>p\<close> exactly when \<open>p\<close> is the candidate with that id. When it fails,
  the "add" form for users raises \<open>NotFoundError\<close> and makes no call to the
  store; when it returns \<open>p\<close>, the form runs \<^verbatim>\<open>save_obj_perms\<close> with \<open>p\<close> as its
  \<^verbatim>\<open>cleaned_data['user']\<close>, and every \<^verbatim>\<open>remove_perm\<close> and \<^verbatim>\<open>assign\<close> call of that run
  is made for \<open>p\<close>.
\<close>

theorem add_form_resolves_principal:
  assumes "distinct (map principal_id candidateSet)"
    and "AddUser_submit (recording sc) iter candidateSet selectedId ob perms (s, []) = ((s', tr), r)"
  shows "(resolvePrincipal candidateSet selectedId = Inl NotFoundError
           \<longleftrightarrow> selectedId \<notin> principal_id ` set candidateSet)
       \<and> (\<forall>p. resolvePrincipal candidateSet selectedId = Inr p
               \<longleftrightarrow> p \<in> set candidateSet \<and> principal_id p = selectedId)
       \<and> (selectedId \<notin> principal_id ` set candidateSet
            \<longrightarrow> r = Some NotFoundError \<and> tr = [] \<and> s' = s)
       \<and> (\<forall>p. resolvePrincipal candidateSet selectedId = Inr p
            \<longrightarrow> AddUser_save_obj_perms (recording sc) iter
                   \<lparr>obj = ob, permissions = perms, cleaned_user = p\<rparr> (s, []) = ((s', tr), r)
              \<and> (\<forall>c \<in> set tr. call_principal c = p))"
proof (intro conjI allI impI)
  show "resolvePrincipal candidateSet selectedId = Inl NotFoundError
      \<longleftrightarrow> selectedId \<notin> principal_id ` set candidateSet"
    by (rule resolvePrincipal_NotFound)
next
  fix p
  show "resolvePrincipal candidateSet selectedId = Inr p
      \<longleftrightarrow> p \<in> set candidateSet \<and> principal_id p = selectedId"
    using assms(1) by (rule resolvePrincipal_Inr)
next
  assume "selectedId \<notin> principal_id ` set candidateSet"
  then have nf: "resolvePrincipal candidateSet selectedId = Inl NotFoundError"
    by (simp add: resolvePrincipal_NotFound)
  with assms(2) show "r = Some NotFoundError" "tr = []" "s' = s"
    by (simp_all add: AddUser_submit_def)
next
  fix p
  assume ok: "resolvePrincipal candidateSet selectedId = Inr p"
  with assms(2) show run: "AddUser_save_obj_perms (recording sc) iter
      \<lparr>obj = ob, permissions = perms, cleaned_user = p\<rparr> (s, []) = ((s', tr), r)"
    by (simp add: AddUser_submit_def)
  then have rec: "reconcile (recording sc) iter p ob
      (map fst (get_obj_perms_field_choices sc ob)) perms (s, []) = ((s', tr), r)"
    by (simp add: AddUser_save_obj_perms_reconcile)
  show "\<forall>c \<in> set tr. call_principal c = p"
    using reconcile_recording_principal [OF rec] by blast
qed

theorem add_form_resolves_principal_witness:
  "distinct (map principal_id [User 1, User 2, User 3])
   \<and> AddUser_submit (recording (list_store never post_permissions)) rev
        [User 1, User 2, User 3] 2 7 [''view_post''] ([(User 1, 7, ''change_post'')], [])
      = (([(User 1, 7, ''change_post''), (User 2, 7, ''view_post'')],
          [RemovePerm ''delete_post'' (User 2) 7, RemovePerm ''change_post'' (User 2) 7,
           Assign ''view_post'' (User 2) 7]), None)
   \<and> resolvePrincipal [User 1, User 2, User 3] 2 = Inr (User 2)
   \<and> call_principal (Assign ''view_post'' (User 2) (7::nat)) = User 2
   \<and> AddUser_submit (recording (list_store never post_permissions)) rev
        [User 1, User 2, User 3] 9 7 [''view_post''] ([(User 1, 7, ''change_post'')], [])
      = (([(User 1, 7, ''change_post'')], []), Some NotFoundError)
   \<and> resolvePrincipal [User 1, User 2, User 3] 9 = Inl NotFoundError"
proof -
  let ?sc = "recording (list_store never post_permissions)"
  let ?cs = "[User 1, User 2, User 3]"
  let ?s = "([(User 1, 7::nat, ''change_post'')], [])"
  let ?tr = "[RemovePerm ''delete_post'' (User 2) (7::nat), RemovePerm ''change_post'' (User 2) 7,
           Assign ''view_post'' (User 2) 7]"
  note defs = AddUser_submit_def resolvePrincipal_def AddUser_save_obj_perms_def
    get_obj_perms_field_choices_def list_store_def recording_def post_permissions_def
    set_difference_def never_def Let_def
  have h1: "distinct (map principal_id ?cs)" by simp
  have h2: "AddUser_submit ?sc rev ?cs 2 7 [''view_post''] ?s
      = (([(User 1, 7, ''change_post''), (User 2, 7, ''view_post'')], ?tr), None)"
    by (simp add: defs)
  have h3: "AddUser_submit ?sc rev ?cs 9 7 [''view_post''] ?s
      = (([(User 1, 7, ''change_post'')], []), Some NotFoundError)"
    by (simp add: defs)
  note ok = add_form_resolves_principal [OF h1 h2]
  note nf = add_form_resolves_principal [OF h1 h3]
  from ok have c1: "resolvePrincipal ?cs 2 = Inr (User 2)" by simp
  with ok have "\<forall>c \<in> set ?tr. call_principal c = User 2" by blast
  then have c2: "call_principal (Assign ''view_post'' (User 2) (7::nat)) = User 2" by simp
  from nf have c3: "resolvePrincipal ?cs 9 = Inl NotFoundError" by simp
  from h1 h2 c1 c2 h3 c3 show ?thesis by blast
qed

text \<open>
  Claim C9. In every run of \<^verbatim>\<open>save_obj_perms\<close>, of the user form and of the "add"
  form for groups, returning or raising, no \<^verbatim>\<open>remove_perm\<close> call comes after an
  \<^verbatim>\<open>assign\<close> call; and once an \<^verbatim>\<open>assign\<close> call has been made, the \<^verbatim>\<open>remove_perm\<close>
  call of every element of the removal set has been made already.
\<close>

theorem removals_before_assignments:
  assumes "set_iteration iter"
    and "User_save_obj_perms (recording sc) iter uform (s, []) = ((s', tr), r)"
    and "AddGroup_save_obj_perms (recording sc) iter gform (t, []) = ((t', tr'), r')"
  shows "removes_first tr
       \<and> ((\<exists>c \<in> set tr. \<not> is_remove c) \<longrightarrow>
            (\<forall>x \<in> set (map fst (get_obj_perms_field_choices sc (obj uform))) - set (permissions uform).
               RemovePerm x (user uform) (obj uform) \<in> set tr))
       \<and> removes_first tr'
       \<and> ((\<exists>c \<in> set tr'. \<not> is_remove c) \<longrightarrow>
            (\<forall>x \<in> set (map fst (get_obj_perms_field_choices sc (obj gform))) - set (permissions gform).
               RemovePerm x (cleaned_group gform) (obj gform) \<in> set tr'))"
proof -
  from assms(2) have u: "reconcile (recording sc) iter (user uform) (obj uform)
      (map fst (get_obj_perms_field_choices sc (obj uform))) (permissions uform) (s, [])
      = ((s', tr), r)"
    by (simp add: User_save_obj_perms_reconcile)
  from assms(3) have g: "reconcile (recording sc) iter (cleaned_group gform) (obj gform)
      (map fst (get_obj_perms_field_choices sc (obj gform))) (permissions gform) (t, [])
      = ((t', tr'), r')"
    by (simp add: AddGroup_save_obj_perms_reconcile)
  from reconcile_recording_order [OF assms(1) u] reconcile_recording_order [OF assms(1) g]
  show ?thesis by blast
qed

theorem removals_before_assignments_witness:
  "set_iteration (rev :: string list \<Rightarrow> string list)
   \<and> User_save_obj_perms
        (recording (list_store (\<lambda>c. c = Assign ''change_post'' (Group 2) 7) post_permissions)) rev
        \<lparr>obj = 7, permissions = [''delete_post''], user = User 1\<rparr>
        ([(User 1, 7, ''view_post''), (User 1, 7, ''change_post'')], [])
      = (([(User 1, 7, ''delete_post'')],
          [RemovePerm ''change_post'' (User 1) 7, RemovePerm ''view_post'' (User 1) 7,
           Assign ''delete_post'' (User 1) 7]), None)
   \<and> AddGroup_save_obj_perms
        (recording (list_store (\<lambda>c. c = Assign ''change_post'' (Group 2) 7) post_permissions)) rev
        \<lparr>obj = 7, permissions = [''view_post'', ''change_post''], cleaned_group = Group 2\<rparr>
        ([], [])
      = (([(Group 2, 7, ''view_post'')],
          [RemovePerm ''delete_post'' (Group 2) 7, Assign ''view_post'' (Group 2) 7,
           Assign ''change_post'' (Group 2) 7]), Some StoreOperationError)
   \<and> removes_first [RemovePerm ''change_post'' (User 1) (7::nat), RemovePerm ''view_post'' (User 1) 7,
        Assign ''delete_post'' (User 1) 7]
   \<and> removes_first [RemovePerm ''delete_post'' (Group 2) (7::nat), Assign ''view_post'' (Group 2) 7,
        Assign ''change_post'' (Group 2) 7]"
proof -
  let ?sc = "list_store (\<lambda>c. c = Assign ''change_post'' (Group 2) (7::nat)) post_permissions"
  let ?uform = "\<lparr>obj = 7::nat, permissions = [''delete_post''], user = User 1\<rparr>"
  let ?gform = "\<lparr>obj = 7::nat, permissions = [''view_post'', ''change_post''], cleaned_group = Group 2\<rparr>"
  let ?s = "[(User 1, 7::nat, ''view_post''), (User 1, 7, ''change_post'')]"
  let ?tr = "[RemovePerm ''change_post'' (User 1) (7::nat), RemovePerm ''view_post'' (User 1) 7,
           Assign ''delete_post'' (User 1) 7]"
  let ?tr' = "[RemovePerm ''delete_post'' (Group 2) (7::nat), Assign ''view_post'' (Group 2) 7,
           Assign ''change_post'' (Group 2) 7]"
  have h1: "set_iteration (rev :: string list \<Rightarrow> string list)" by (rule set_iteration_rev)
  have h2: "User_save_obj_perms (recording ?sc) rev ?uform (?s, [])
      = (([(User 1, 7, ''delete_post'')], ?tr), None)"
    by (simp add: User_save_obj_perms_def get_obj_perms_field_choices_def list_store_def
        recording_def post_permissions_def set_difference_def)
  have h3: "AddGroup_save_obj_perms (recording ?sc) rev ?gform ([], [])
      = (([(Group 2, 7, ''view_post'')], ?tr'), Some StoreOperationError)"
    by (simp add: AddGroup_save_obj_perms_def get_obj_perms_field_choices_def list_store_def
        recording_def post_permissions_def set_difference_def Let_def)
  from removals_before_assignments [OF h1 h2 h3]
  have c: "removes_first ?tr" "removes_first ?tr'" by blast+
  from h1 h2 h3 c show ?thesis by blast
qed

text \<open>
  Claim C10. Whatever the desired permissions are, in the catalog or not, the
  removal set of \<^verbatim>\<open>save_obj_perms\<close> of the user form is a subset of the codenames
  of the catalog, the permissions \<^verbatim>\<open>get_perms_for_model\<close> gives for the object,
  and every \<^verbatim>\<open>remove_perm\<close> call of a run, returning or raising, has such a
  codename as its argument. So on a store that meets the contract of the grant
  store, a grant whose codename is not in the catalog is still held after the
  run.
\<close>

theorem removals_within_catalog:
  assumes "set_iteration iter"
    and "User_save_obj_perms (recording sc) iter form (s, []) = ((s', tr), r)"
  shows "set (set_difference (map fst (get_obj_perms_field_choices sc (obj form))) (permissions form))
           \<subseteq> codename ` set (get_perms_for_model sc (obj form))
       \<and> (\<forall>c \<in> set tr. is_remove c \<longrightarrow>
            call_codename c \<in> codename ` set (get_perms_for_model sc (obj form)))
       \<and> (idempotent_store sc \<longrightarrow>
            currentGrants sc p ob s - codename ` set (get_perms_for_model sc (obj form))
              \<subseteq> currentGrants sc p ob s')"
proof -
  let ?M = "map fst (get_obj_perms_field_choices sc (obj form))"
  let ?cs = "reconcile_calls iter (user form) (obj form) ?M (permissions form)"
  have M: "set ?M = codename ` set (get_perms_for_model sc (obj form))"
    by (simp add: model_perms_codenames)
  from assms(2) have rec: "reconcile (recording sc) iter (user form) (obj form) ?M (permissions form)
      (s, []) = ((s', tr), r)"
    by (simp add: User_save_obj_perms_reconcile)
  from reconcile_recording_trace [OF rec] obtain k where
    run: "reconcile sc iter (user form) (obj form) ?M (permissions form) s = (s', r)"
    and tr: "tr = take k ?cs" by blast
  from tr have sub: "set tr \<subseteq> set ?cs" by (simp add: set_take_subset)
  have "\<forall>c \<in> set ?cs. is_remove c \<longrightarrow> call_codename c \<in> set ?M"
    unfolding set_reconcile_calls [OF assms(1)] by force
  with sub have calls: "\<forall>c \<in> set tr. is_remove c \<longrightarrow> call_codename c \<in> set ?M" by blast
  have grants: "currentGrants sc p ob s - set ?M \<subseteq> currentGrants sc p ob s'"
    if "idempotent_store sc"
  proof -
    from reconcile_grants [OF that assms(1) run] obtain R A where
      "R \<subseteq> set ?M - set (permissions form)"
      "currentGrants sc p ob s' =
         (if p = user form \<and> ob = obj form then (currentGrants sc p ob s - R) \<union> A
          else currentGrants sc p ob s)"
      by blast
    then show ?thesis by (auto split: if_splits)
  qed
  have "set (set_difference ?M (permissions form)) \<subseteq> set ?M"
    unfolding set_set_difference by (rule Diff_subset)
  with calls grants show ?thesis unfolding M by blast
qed

theorem removals_within_catalog_witness:
  "set_iteration (rev :: string list \<Rightarrow> string list)
   \<and> User_save_obj_perms (recording (list_store never post_permissions)) rev
        \<lparr>obj = 7, permissions = [''publish_post''], user = User 1\<rparr>
        ([(User 1, 7, ''view_post''), (User 1, 7, ''legacy_perm'')], [])
      = (([(User 1, 7, ''legacy_perm''), (User 1, 7, ''publish_post'')],
          [RemovePerm ''delete_post'' (User 1) 7, RemovePerm ''change_post'' (User 1) 7,
           RemovePerm ''view_post'' (User 1) 7, Assign ''publish_post'' (User 1) 7]), None)
   \<and> idempotent_store (list_store never post_permissions)
   \<and> call_codename (RemovePerm ''view_post'' (User 1) (7::nat))
        \<in> codename ` set (get_perms_for_model (list_store never post_permissions) (7::nat))
   \<and> currentGrants (list_store never post_permissions) (User 1) 7
        [(User 1, 7, ''view_post''), (User 1, 7, ''legacy_perm'')]
        - codename ` set (get_perms_for_model (list_store never post_permissions) (7::nat))
      \<subseteq> currentGrants (list_store never post_permissions) (User 1) 7
        [(User 1, 7, ''legacy_perm''), (User 1, 7, ''publish_post'')]"
proof -
  let ?sc = "list_store never post_permissions"
  let ?form = "\<lparr>obj = 7::nat, permissions = [''publish_post''], user = User 1\<rparr>"
  let ?s = "[(User 1, 7::nat, ''view_post''), (User 1, 7, ''legacy_perm'')]"
  let ?s' = "[(User 1, 7::nat, ''legacy_perm''), (User 1, 7, ''publish_post'')]"
  let ?tr = "[RemovePerm ''delete_post'' (User 1) (7::nat), RemovePerm ''change_post'' (User 1) 7,
           RemovePerm ''view_post'' (User 1) 7, Assign ''publish_post'' (User 1) 7]"
  have h1: "set_iteration (rev :: string list \<Rightarrow> string list)" by (rule set_iteration_rev)
  have h2: "User_save_obj_perms (recording ?sc) rev ?form (?s, []) = ((?s', ?tr), None)"
    by (simp add: User_save_obj_perms_def get_obj_perms_field_choices_def list_store_def
        recording_def post_permissions_def set_difference_def never_def)
  have h3: "idempotent_store ?sc" by (rule idempotent_store_list_store)
  note th = removals_within_catalog [OF h1 h2, of "User 1" 7]
  from th have "\<forall>c \<in> set ?tr. is_remove c \<longrightarrow>
      call_codename c \<in> codename ` set (get_perms_for_model ?sc (obj ?form))"
    by blast
  then have c1: "call_codename (RemovePerm ''view_post'' (User 1) (7::nat))
      \<in> codename ` set (get_perms_for_model ?sc (7::nat))"
    by simp
  from th h3 have c2: "currentGrants ?sc (User 1) 7 ?s
        - codename ` set (get_perms_for_model ?sc (7::nat))
      \<subseteq> currentGrants ?sc (User 1) 7 ?s'"
    by simp
  from h1 h2 h3 c1 c2 show ?thesis by blast
qed

end
